theory Spec2Isabelle
  imports Complex_Main "HOL-Library.Sublist"
begin

section \<open>Data model of \<open>src/ai_agent.py\<close>\<close>

text \<open>
  Python strings are modelled as \<open>string\<close>. Every denylisted pattern is ASCII, so
  substring search and replacement act on the UTF-8 bytes exactly as they act on the code
  points. A \<open>datetime\<close> is an integer count of microseconds; \<open>float\<close> scores are
  \<open>real\<close> (the only operations on them are the subtraction of 20 from 100,
  \<open>max\<close> and comparisons, all exact on the values that occur).
\<close>

type_synonym datetime = int

datatype SecurityLevel = HIGH | MEDIUM | LOW

datatype py_error =
    SecurityError
  | SyntaxError
  | TypeError
  | AttributeError
  | JSONDecodeError
  | OtherError string

record SecurityContext =
  sanitized :: bool
  validated :: bool
  security_score :: real
  vulnerabilities :: "string list"
  last_checked :: datetime
  security_level :: SecurityLevel

text \<open>
  \<open>SecurityContext()\<close> with no arguments: the dataclass defaults, then
  \<open>__post_init__\<close> replaces the \<open>None\<close> list by \<open>[]\<close> and the
  \<open>None\<close> time by \<open>datetime.now()\<close>.
\<close>

definition SecurityContext_init :: "datetime \<Rightarrow> SecurityContext" where
  "SecurityContext_init now =
     \<lparr> sanitized = False, validated = False, security_score = 0,
       vulnerabilities = [], last_checked = now, security_level = LOW \<rparr>"

text \<open>\<open>is_valid\<close>: validated, and checked less than 86400 seconds before \<open>now\<close>.\<close>

definition is_valid :: "SecurityContext \<Rightarrow> datetime \<Rightarrow> bool" where
  "is_valid ctx now \<longleftrightarrow> validated ctx \<and> now - last_checked ctx < 86400 * 1000000"

definition update_security_level :: "SecurityContext \<Rightarrow> SecurityContext" where
  "update_security_level ctx =
     (if security_score ctx \<ge> 90 \<and> vulnerabilities ctx = []
      then ctx\<lparr>security_level := HIGH\<rparr>
      else if security_score ctx \<ge> 70
      then ctx\<lparr>security_level := MEDIUM\<rparr>
      else ctx\<lparr>security_level := LOW\<rparr>)"

section \<open>The configuration\<close>

definition dangerous_patterns :: "string list" where
  "dangerous_patterns =
     [''os.system'', ''eval('', ''exec('', ''__import__'',
      ''subprocess'', ''open('', ''write('', ''chmod'']"

definition min_acceptable_score :: real where
  "min_acceptable_score = 80"

definition model_name :: string where
  "model_name = ''llama2''"

section \<open>String primitives\<close>

text \<open>
  \<open>pattern in code\<close>: substring test, scanning the text from the left.
\<close>

fun contains :: "string \<Rightarrow> string \<Rightarrow> bool" where
  "contains p [] = (p = [])"
| "contains p (c # cs) = (prefix p (c # cs) \<or> contains p cs)"

text \<open>
  \<open>s.replace(old, new)\<close>: the occurrences of \<open>old\<close> are found from the left and
  do not overlap; an empty \<open>old\<close> matches before every character and at the end.
\<close>

function replace :: "string \<Rightarrow> string \<Rightarrow> string \<Rightarrow> string" where
  "replace old new [] = (if old = [] then new else [])"
| "replace old new (c # cs) =
     (if old = [] then new @ c # replace old new cs
      else if prefix old (c # cs) then new @ replace old new (drop (length old) (c # cs))
      else c # replace old new cs)"
  by pat_completeness auto
termination
  by (relation "measure (\<lambda>(old, new, s). length s)") auto

section \<open>SecurityManager\<close>

text \<open>The redaction marker \<open>f"# SECURITY REMOVED: {pattern}"\<close>.\<close>

definition marker_prefix :: string where
  "marker_prefix = ''# SECURITY REMOVED: ''"

definition marker :: "string \<Rightarrow> string" where
  "marker pattern = marker_prefix @ pattern"

text \<open>The \<open>for\<close> loop of \<open>sanitize_code\<close> over the remaining patterns.\<close>

fun sanitize_loop :: "string list \<Rightarrow> string \<Rightarrow> string" where
  "sanitize_loop [] code = code"
| "sanitize_loop (pattern # ps) code = sanitize_loop ps (replace pattern (marker pattern) code)"

definition sanitize_code :: "string \<Rightarrow> string" where
  "sanitize_code code = sanitize_loop dangerous_patterns code"

text \<open>
  The builtin \<open>compile(code, '<string>', 'exec')\<close> belongs to the interpreter. It is a
  parameter of the model: for each text it either returns a code object or raises.
\<close>

datatype compile_result = Compiled | Raised py_error

definition validate_syntax :: "(string \<Rightarrow> compile_result) \<Rightarrow> string \<Rightarrow> py_error + bool" where
  "validate_syntax py_compile code =
     (case py_compile code of
        Compiled \<Rightarrow> Inr True
      | Raised SyntaxError \<Rightarrow> Inr False
      | Raised e \<Rightarrow> Inl e)"

text \<open>The \<open>for\<close> loop of \<open>calculate_security_score\<close>, with the running score.\<close>

fun score_loop :: "string list \<Rightarrow> string \<Rightarrow> real \<Rightarrow> real" where
  "score_loop [] code score = score"
| "score_loop (pattern # ps) code score =
     score_loop ps code (if contains pattern code then score - 20 else score)"

definition calculate_security_score :: "string \<Rightarrow> real" where
  "calculate_security_score code = max 0 (score_loop dangerous_patterns code 100)"

definition perform_security_checks ::
  "(string \<Rightarrow> compile_result) \<Rightarrow> datetime \<Rightarrow> string \<Rightarrow> py_error + (SecurityContext \<times> string)" where
  "perform_security_checks py_compile now code =
     (let security_context = SecurityContext_init now;
          sanitized_code = sanitize_code code
      in case validate_syntax py_compile sanitized_code of
           Inl e \<Rightarrow> Inl e
         | Inr valid_syntax \<Rightarrow>
             (let security_score = calculate_security_score sanitized_code;
                  security_context = security_context\<lparr>validated := valid_syntax\<rparr>;
                  security_context = security_context\<lparr>security_score := security_score\<rparr>;
                  security_context = security_context\<lparr>sanitized := True\<rparr>;
                  security_context = update_security_level security_context
              in Inr (security_context, sanitized_code)))"

section \<open>Python values, JSON and the cache files\<close>

text \<open>
  A dataclass does not check the types of its fields, and \<open>CodeResponse(**data)\<close> stores
  whatever \<open>json.load\<close> returned. The fields of a \<open>CodeResponse\<close> are therefore
  Python values: the plain ones that JSON knows, a \<open>SecurityContext\<close> instance, or a
  \<open>datetime\<close>. A dictionary is the list of its items in insertion order.
\<close>

datatype pyval =
    PNone
  | PBool bool
  | PInt int
  | PFloat real
  | PStr string
  | PList "pyval list"
  | PDict "(string \<times> pyval) list"
  | PSecurityContext SecurityContext
  | PDatetime datetime

record CodeResponse =
  code :: pyval
  explanation :: pyval
  security_context :: pyval
  metadata :: pyval
  timestamp :: pyval

text \<open>
  \<open>is_secure\<close> reads three attributes of \<open>self.security_context\<close>. Only a
  \<open>SecurityContext\<close> instance has them; on any other value the first attribute access
  raises \<open>AttributeError\<close>.
\<close>

definition is_secure :: "CodeResponse \<Rightarrow> py_error + bool" where
  "is_secure self =
     (case security_context self of
        PSecurityContext ctx \<Rightarrow>
          Inr (security_score ctx \<ge> min_acceptable_score
               \<and> security_level ctx \<noteq> LOW
               \<and> vulnerabilities ctx = [])
      | _ \<Rightarrow> Inl AttributeError)"

text \<open>
  The default encoder of the \<open>json\<close> module serialises \<open>dict\<close>, \<open>list\<close>, \<open>str\<close>,
  numbers, booleans and \<open>None\<close>, and raises \<open>TypeError\<close> on every other object.
\<close>

fun json_serializable :: "pyval \<Rightarrow> bool" where
  "json_serializable PNone = True"
| "json_serializable (PBool b) = True"
| "json_serializable (PInt i) = True"
| "json_serializable (PFloat x) = True"
| "json_serializable (PStr s) = True"
| "json_serializable (PList xs) = list_all json_serializable xs"
| "json_serializable (PDict kvs) = list_all json_serializable (map snd kvs)"
| "json_serializable (PSecurityContext ctx) = False"
| "json_serializable (PDatetime t) = False"

text \<open>
  The body of a cache file: either the text of a JSON document, given by the value
  \<open>json.load\<close> returns for it, or a text that is not a JSON document.
  \<open>json.dump(obj, f)\<close> writes the encoder's chunks to the file as they are produced, so a
  \<open>TypeError\<close> leaves the file, which \<open>open(..., 'w')\<close> has already truncated, with an
  opening brace and no closing one.
\<close>

datatype file_body = Json_text pyval | Not_json

type_synonym filesystem = "string \<rightharpoonup> file_body"

definition json_dump :: "pyval \<Rightarrow> file_body \<times> py_error option" where
  "json_dump obj =
     (if json_serializable obj then (Json_text obj, None) else (Not_json, Some TypeError))"

definition json_load :: "file_body \<Rightarrow> py_error + pyval" where
  "json_load f = (case f of Json_text v \<Rightarrow> Inr v | Not_json \<Rightarrow> Inl JSONDecodeError)"

text \<open>\<open>response.__dict__\<close>: the five fields in declaration order.\<close>

definition dict_of :: "CodeResponse \<Rightarrow> pyval" where
  "dict_of r =
     PDict [(''code'', code r), (''explanation'', explanation r),
            (''security_context'', security_context r), (''metadata'', metadata r),
            (''timestamp'', timestamp r)]"

definition field_names :: "string list" where
  "field_names = [''code'', ''explanation'', ''security_context'', ''metadata'', ''timestamp'']"

text \<open>
  \<open>CodeResponse(**data)\<close>: \<open>data\<close> must be a mapping, every key must be a field name and
  every field must be given; anything else is a \<open>TypeError\<close>.
\<close>

definition CodeResponse_init :: "pyval \<Rightarrow> py_error + CodeResponse" where
  "CodeResponse_init data =
     (case data of
        PDict kvs \<Rightarrow>
          (if list_all (\<lambda>k. k \<in> set field_names) (map fst kvs)
           then (case (map_of kvs ''code'', map_of kvs ''explanation'',
                       map_of kvs ''security_context'', map_of kvs ''metadata'',
                       map_of kvs ''timestamp'') of
                   (Some c, Some e, Some s, Some m, Some t) \<Rightarrow>
                     Inr \<lparr> code = c, explanation = e, security_context = s,
                           metadata = m, timestamp = t \<rparr>
                 | _ \<Rightarrow> Inl TypeError)
           else Inl TypeError)
      | _ \<Rightarrow> Inl TypeError)"

section \<open>CacheManager\<close>

text \<open>
  \<open>hashlib.sha256(...).hexdigest()\<close> is a parameter: the cache only needs it to be a
  function of the prompt. The file system is the content of the cache directory.
\<close>

definition get_cache_key :: "(string \<Rightarrow> string) \<Rightarrow> string \<Rightarrow> string" where
  "get_cache_key sha256_hex prompt = sha256_hex prompt"

definition CacheManager_get_cached_response ::
  "(string \<Rightarrow> string) \<Rightarrow> filesystem \<Rightarrow> string \<Rightarrow> py_error + CodeResponse option" where
  "CacheManager_get_cached_response sha256_hex fs prompt =
     (let cache_key = get_cache_key sha256_hex prompt;
          cache_file = cache_key @ ''.json''
      in case fs cache_file of
           None \<Rightarrow> Inr None
         | Some f \<Rightarrow>
             (case json_load f of
                Inl e \<Rightarrow> Inl e
              | Inr data \<Rightarrow>
                  (case CodeResponse_init data of
                     Inl e \<Rightarrow> Inl e
                   | Inr r \<Rightarrow> Inr (Some r))))"

definition CacheManager_cache_response ::
  "(string \<Rightarrow> string) \<Rightarrow> filesystem \<Rightarrow> string \<Rightarrow> CodeResponse \<Rightarrow> filesystem \<times> py_error option" where
  "CacheManager_cache_response sha256_hex fs prompt response =
     (let cache_key = get_cache_key sha256_hex prompt;
          cache_file = cache_key @ ''.json'';
          (f, err) = json_dump (dict_of response)
      in (fs(cache_file \<mapsto> f), err))"

section \<open>AIAgent\<close>

text \<open>
  \<open>generate_response\<close> reaches the cache through the attribute \<open>self.cache_manager\<close>:
  the two methods it calls are a record over the state they act on. \<open>CacheManager\<close> is
  the object that \<open>AIAgent.__init__\<close> puts there.
\<close>

record 'c cache_manager =
  get_cached_response :: "'c \<Rightarrow> string \<Rightarrow> py_error + CodeResponse option"
  cache_response :: "'c \<Rightarrow> string \<Rightarrow> CodeResponse \<Rightarrow> 'c \<times> py_error option"

definition CacheManager :: "(string \<Rightarrow> string) \<Rightarrow> filesystem cache_manager" where
  "CacheManager sha256_hex =
     \<lparr> get_cached_response = CacheManager_get_cached_response sha256_hex,
       cache_response = CacheManager_cache_response sha256_hex \<rparr>"

text \<open>
  A cache manager that keeps the response objects in a dictionary, as a test double for
  the one above.
\<close>

definition dict_cache :: "(string \<rightharpoonup> CodeResponse) cache_manager" where
  "dict_cache =
     \<lparr> get_cached_response = (\<lambda>c prompt. Inr (c prompt)),
       cache_response = (\<lambda>c prompt r. (c(prompt \<mapsto> r), None)) \<rparr>"

text \<open>
  The reply of \<open>ollama.chat\<close> is a mapping that may hold a \<open>message\<close>, itself a mapping
  that may hold a \<open>content\<close>; the call may also raise.
\<close>

type_synonym chat_response = "string \<rightharpoonup> (string \<rightharpoonup> string)"

definition message_content_of :: "chat_response \<Rightarrow> string" where
  "message_content_of response =
     (case response ''message'' of
        None \<Rightarrow> []
      | Some m \<Rightarrow> (case m ''content'' of None \<Rightarrow> [] | Some c \<Rightarrow> c))"

text \<open>
  The outcome of one call: what is returned or raised, the state of the cache afterwards,
  and the calls made to the model client, each with its model and its prompt.
\<close>

record 'c outcome =
  result :: "py_error + CodeResponse"
  cache_after :: 'c
  chat_calls :: "(string \<times> string) list"

definition generate_response ::
  "'c cache_manager \<Rightarrow> (string \<Rightarrow> compile_result) \<Rightarrow> (string \<Rightarrow> string \<Rightarrow> py_error + chat_response)
     \<Rightarrow> datetime \<Rightarrow> datetime \<Rightarrow> 'c \<Rightarrow> string \<Rightarrow> 'c outcome" where
  "generate_response cm py_compile chat t_checked t_stamp cache prompt =
     (let generate =
        (let calls = [(model_name, prompt)]
         in case chat model_name prompt of
              Inl e \<Rightarrow> \<lparr> result = Inl e, cache_after = cache, chat_calls = calls \<rparr>
            | Inr response \<Rightarrow>
                (let message_content = message_content_of response
                 in if message_content = []
                    then \<lparr> result = Inl SecurityError, cache_after = cache, chat_calls = calls \<rparr>
                    else (case perform_security_checks py_compile t_checked message_content of
                            Inl e \<Rightarrow> \<lparr> result = Inl e, cache_after = cache, chat_calls = calls \<rparr>
                          | Inr (checked_context, sanitized_code) \<Rightarrow>
                              (let code_response =
                                     \<lparr> code = PStr sanitized_code,
                                       explanation = PStr ''AI-generated secure response'',
                                       security_context = PSecurityContext checked_context,
                                       metadata = PDict [(''model'', PStr model_name)],
                                       timestamp = PDatetime t_stamp \<rparr>;
                                   (cache', err) = cache_response cm cache prompt code_response
                               in case err of
                                    Some e \<Rightarrow>
                                      \<lparr> result = Inl e, cache_after = cache', chat_calls = calls \<rparr>
                                  | None \<Rightarrow>
                                      \<lparr> result = Inr code_response, cache_after = cache',
                                        chat_calls = calls \<rparr>))))
      in case get_cached_response cm cache prompt of
           Inl e \<Rightarrow> \<lparr> result = Inl e, cache_after = cache, chat_calls = [] \<rparr>
         | Inr None \<Rightarrow> generate
         | Inr (Some cached_response) \<Rightarrow>
             (case is_secure cached_response of
                Inl e \<Rightarrow> \<lparr> result = Inl e, cache_after = cache, chat_calls = [] \<rparr>
              | Inr True \<Rightarrow>
                  \<lparr> result = Inr cached_response, cache_after = cache, chat_calls = [] \<rparr>
              | Inr False \<Rightarrow> generate))"

section \<open>Metrics of \<open>Agent/src/agent_core.py\<close>\<close>

record RequestMetrics =
  start_time :: datetime
  end_time :: "datetime option"
  duration :: "real option"
  success :: bool
  error :: "string option"

record AgentMetrics =
  total_requests :: int
  successful_requests :: int
  failed_requests :: int
  average_response_time :: real
  last_error :: "string option"
  last_activity :: "datetime option"
  request_history :: "RequestMetrics list"

definition AgentMetrics_init :: AgentMetrics where
  "AgentMetrics_init =
     \<lparr> total_requests = 0, successful_requests = 0, failed_requests = 0,
       average_response_time = 0, last_error = None, last_activity = None,
       request_history = [] \<rparr>"

definition add_request :: "AgentMetrics \<Rightarrow> RequestMetrics \<Rightarrow> AgentMetrics" where
  "add_request self metrics =
     (let self = self\<lparr>request_history := request_history self @ [metrics]\<rparr>;
          self = self\<lparr>total_requests := total_requests self + 1\<rparr>;
          self =
            (if success metrics
             then (let self = self\<lparr>successful_requests := successful_requests self + 1\<rparr>
                   in case duration metrics of
                        None \<Rightarrow> self
                      | Some d \<Rightarrow>
                          (if successful_requests self = 1
                           then self\<lparr>average_response_time := d\<rparr>
                           else self\<lparr>average_response_time :=
                                  (average_response_time self
                                     * real_of_int (successful_requests self - 1) + d)
                                  / real_of_int (successful_requests self)\<rparr>))
             else (let self = self\<lparr>failed_requests := failed_requests self + 1\<rparr>
                   in self\<lparr>last_error := error metrics\<rparr>))
      in self\<lparr>last_activity :=
           Some (case end_time metrics of None \<Rightarrow> start_time metrics | Some t \<Rightarrow> t)\<rparr>)"

text \<open>A sequence of \<open>add_request\<close> calls on one metrics object.\<close>

definition add_requests :: "AgentMetrics \<Rightarrow> RequestMetrics list \<Rightarrow> AgentMetrics" where
  "add_requests self ms = foldl add_request self ms"

section \<open>Notions used in the proofs\<close>

text \<open>
  \<open>border u v\<close>: some non-empty suffix of \<open>u\<close> is a prefix of \<open>v\<close>, so that an occurrence
  of \<open>v\<close> can start inside an occurrence of \<open>u\<close> and run past its end. Two patterns are
  independent when no occurrence of one can overlap an occurrence of the other.
\<close>

fun border :: "string \<Rightarrow> string \<Rightarrow> bool" where
  "border [] v = False"
| "border (x # xs) v = (prefix (x # xs) v \<or> border xs v)"

definition independent :: "string \<Rightarrow> string \<Rightarrow> bool" where
  "independent p q \<longleftrightarrow> \<not> contains p q \<and> \<not> contains q p \<and> \<not> border p q \<and> \<not> border q p"

fun all_independent :: "string list \<Rightarrow> bool" where
  "all_independent [] = True"
| "all_independent (p # ps) = (p \<noteq> [] \<and> list_all (independent p) ps \<and> all_independent ps)"

text \<open>The durations of the successful requests of a sequence, in order.\<close>

definition successful_durations :: "RequestMetrics list \<Rightarrow> real list" where
  "successful_durations ms = map (\<lambda>m. the (duration m)) (filter success ms)"

section \<open>Substrings and replacement\<close>

lemma contains_sublist: "contains p s \<longleftrightarrow> sublist p s"
  by (induction s) (auto simp: sublist_Cons_right)

lemma border_iff: "border u v \<longleftrightarrow> (\<exists>w. w \<noteq> [] \<and> suffix w u \<and> prefix w v)"
proof (induction u)
  case Nil
  then show ?case by simp
next
  case (Cons x xs)
  show ?case
  proof
    assume "border (x # xs) v"
    then consider "prefix (x # xs) v" | "border xs v" by auto
    then show "\<exists>w. w \<noteq> [] \<and> suffix w (x # xs) \<and> prefix w v"
    proof cases
      case 1
      then show ?thesis by (intro exI[of _ "x # xs"]) simp
    next
      case 2
      with Cons obtain w where "w \<noteq> []" "suffix w xs" "prefix w v" by auto
      then show ?thesis by (intro exI[of _ w]) (simp add: suffix_Cons)
    qed
  next
    assume "\<exists>w. w \<noteq> [] \<and> suffix w (x # xs) \<and> prefix w v"
    then obtain w where w: "w \<noteq> []" "suffix w (x # xs)" "prefix w v" by auto
    from w(2) have "w = x # xs \<or> suffix w xs" by (simp add: suffix_Cons)
    then show "border (x # xs) v"
      using w Cons by auto
  qed
qed

lemma replace_inserts_new:
  "old \<noteq> [] \<Longrightarrow> sublist old s \<Longrightarrow> sublist new (replace old new s)"
proof (induction old new s rule: replace.induct)
  case (1 old new)
  then show ?case by simp
next
  case (2 old new c cs)
  show ?case
  proof (cases "prefix old (c # cs)")
    case True
    with 2 show ?thesis by simp
  next
    case False
    with 2 have "sublist old cs" by (simp add: sublist_Cons_right)
    with 2 False have "sublist new (replace old new cs)" by simp
    then have "sublist new (c # replace old new cs)" by (simp add: sublist_Cons_right)
    with 2 False show ?thesis by simp
  qed
qed

lemma replace_keeps_prefix:
  assumes "old \<noteq> []" "\<not> sublist old p" "\<not> border p old"
  shows "suffix q p \<Longrightarrow> prefix q s \<Longrightarrow> prefix q (replace old new s)"
proof (induction q arbitrary: s)
  case Nil
  then show ?case by simp
next
  case (Cons c q)
  from Cons.prems(2) obtain cs where s: "s = c # cs" and q: "prefix q cs"
    by (cases s) auto
  have "\<not> prefix old (c # cs)"
  proof
    assume po: "prefix old (c # cs)"
    from po Cons.prems(2) s have "prefix old (c # q) \<or> prefix (c # q) old"
      using prefix_same_cases by blast
    then show False
    proof
      assume "prefix old (c # q)"
      then have "sublist old (c # q)" by simp
      moreover have "sublist (c # q) p" using Cons.prems(1) by simp
      ultimately have "sublist old p" using sublist_order.order_trans by blast
      with assms show False by simp
    next
      assume "prefix (c # q) old"
      with Cons.prems(1) have "border p old"
        unfolding border_iff by (intro exI[of _ "c # q"]) simp
      with assms show False by simp
    qed
  qed
  moreover have "suffix q p" using Cons.prems(1) by (rule suffix_ConsD)
  ultimately show ?case using Cons.IH[of cs] q s assms(1) by simp
qed

lemma replace_keeps_independent:
  "old \<noteq> [] \<Longrightarrow> p \<noteq> [] \<Longrightarrow> independent p old \<Longrightarrow> sublist p s
     \<Longrightarrow> sublist p (replace old new s)"
proof (induction old new s rule: replace.induct)
  case (1 old new)
  then show ?case by simp
next
  case (2 old new c cs)
  note ne = \<open>old \<noteq> []\<close> and ind = \<open>independent p old\<close> and sub = \<open>sublist p (c # cs)\<close>
  show ?case
  proof (cases "prefix old (c # cs)")
    case True
    define rest where "rest = drop (length old) (c # cs)"
    from True have s: "c # cs = old @ rest"
      unfolding rest_def prefix_def by auto
    have "sublist p rest"
    proof -
      from sub s have "sublist p (old @ rest)" by simp
      then consider "sublist p old" | "sublist p rest"
        | xs1 xs2 where "p = xs1 @ xs2" "suffix xs1 old" "prefix xs2 rest"
        unfolding sublist_append by blast
      then show ?thesis
      proof cases
        case 1
        with ind show ?thesis by (simp add: independent_def contains_sublist)
      next
        case 2
        then show ?thesis .
      next
        case 3
        show ?thesis
        proof (cases "xs1 = []")
          case True
          with 3 show ?thesis by simp
        next
          case False
          with 3 have "border old p"
            unfolding border_iff by (intro exI[of _ xs1]) simp
          with ind show ?thesis by (simp add: independent_def)
        qed
      qed
    qed
    with "2.IH"(2) "2.prems" True have "sublist p (replace old new rest)"
      by (simp add: rest_def)
    then have "sublist p (new @ replace old new rest)"
      using sublist_append by blast
    with ne True show ?thesis by (simp add: rest_def)
  next
    case False
    from sub consider "prefix p (c # cs)" | "sublist p cs"
      by (auto simp: sublist_Cons_right)
    then show ?thesis
    proof cases
      case 1
      have "prefix p (replace old new (c # cs))"
        using replace_keeps_prefix[of old p p "c # cs" new] ind ne 1
        by (simp add: independent_def contains_sublist)
      then show ?thesis by simp
    next
      case 2
      with "2.IH"(3) "2.prems" False have "sublist p (replace old new cs)" by simp
      then have "sublist p (c # replace old new cs)" by (simp add: sublist_Cons_right)
      with ne False show ?thesis by simp
    qed
  qed
qed




lemma indep_pats: "all_independent dangerous_patterns"
  unfolding dangerous_patterns_def by code_simp

lemma sanitize_loop_keeps:
  "list_all (\<lambda>q. q \<noteq> [] \<and> independent p q) ps \<Longrightarrow> p \<noteq> [] \<Longrightarrow> sublist p s
     \<Longrightarrow> sublist p (sanitize_loop ps s)"
proof (induction ps arbitrary: s)
  case Nil
  then show ?case by simp
next
  case (Cons q qs)
  then have "sublist p (replace q (marker q) s)"
    by (simp add: replace_keeps_independent)
  with Cons show ?case by simp
qed

lemma independent_sym: "independent p q \<Longrightarrow> independent q p"
  by (auto simp: independent_def)

lemma all_independent_nonempty: "all_independent ps \<Longrightarrow> q \<in> set ps \<Longrightarrow> q \<noteq> []"
  by (induction ps) auto

lemma sanitize_loop_contains:
  "all_independent ps \<Longrightarrow> p \<in> set ps \<Longrightarrow> sublist p s \<Longrightarrow> sublist p (sanitize_loop ps s)"
proof (induction ps arbitrary: s)
  case Nil
  then show ?case by simp
next
  case (Cons q qs)
  from Cons.prems(1) have q: "q \<noteq> []" and qi: "list_all (independent q) qs"
    and rest: "all_independent qs" by auto
  show ?case
  proof (cases "p = q")
    case True
    from q Cons.prems(3) True have "sublist (marker q) (replace q (marker q) s)"
      by (simp add: replace_inserts_new)
    moreover have "sublist q (marker q)" unfolding marker_def by (rule sublist_append_leftI)
    ultimately have "sublist q (replace q (marker q) s)"
      using sublist_order.order_trans by blast
    moreover have "list_all (\<lambda>r. r \<noteq> [] \<and> independent q r) qs"
      using qi rest by (auto simp: list_all_iff all_independent_nonempty)
    ultimately show ?thesis using q True
      by (simp add: sanitize_loop_keeps)
  next
    case False
    with Cons.prems(2) have pin: "p \<in> set qs" by simp
    with rest have pne: "p \<noteq> []" by (rule all_independent_nonempty)
    from qi pin have "independent q p" by (simp add: list_all_iff)
    then have "independent p q" by (rule independent_sym)
    with q pne Cons.prems(3) have "sublist p (replace q (marker q) s)"
      by (simp add: replace_keeps_independent)
    with Cons.IH[OF rest pin] show ?thesis by simp
  qed
qed

lemma score_loop_count:
  "score_loop ps s acc = acc - 20 * real (length (filter (\<lambda>p. contains p s) ps))"
  by (induction ps arbitrary: acc) (auto simp: algebra_simps)

lemma filter_length_mono:
  "(\<And>x. x \<in> set xs \<Longrightarrow> P x \<Longrightarrow> Q x) \<Longrightarrow> length (filter P xs) \<le> length (filter Q xs)"
  by (induction xs) auto



lemma replace_prefix_back:
  "old \<noteq> [] \<Longrightarrow> m \<noteq> [] \<Longrightarrow> set p \<inter> set m = {} \<Longrightarrow> prefix p (replace old (m @ old) s)
     \<Longrightarrow> prefix p s"
proof (induction p arbitrary: s)
  case Nil
  then show ?case by simp
next
  case (Cons a p)
  show ?case
  proof (cases s)
    case Nil
    with Cons.prems show ?thesis by simp
  next
    case (Cons c cs)
    show ?thesis
    proof (cases "prefix old (c # cs)")
      case True
      with Cons.prems(1,4) Cons have "prefix (a # p) (m @ old @ replace old (m @ old) (drop (length old) (c # cs)))"
        by simp
      with Cons.prems(2) have "a = hd m" by (cases m) auto
      with Cons.prems(2,3) show ?thesis by (cases m) auto
    next
      case False
      with Cons.prems(1,4) Cons have pre: "prefix (a # p) (c # replace old (m @ old) cs)"
        by simp
      then have "a = c" and "prefix p (replace old (m @ old) cs)" by auto
      moreover have "set p \<inter> set m = {}" using Cons.prems(3) by auto
      ultimately have "prefix p cs" using Cons.IH Cons.prems(1,2) by blast
      with \<open>a = c\<close> Cons show ?thesis by simp
    qed
  qed
qed

lemma sublist_append_disjoint:
  assumes "sublist p (m @ t)" "set p \<inter> set m = {}"
  shows "sublist p t"
proof -
  from assms(1) have "sublist p m \<or> sublist p t
      \<or> (\<exists>xs1 xs2. p = xs1 @ xs2 \<and> suffix xs1 m \<and> prefix xs2 t)"
    by (simp only: sublist_append)
  then consider "sublist p m" | "sublist p t"
    | xs1 xs2 where "p = xs1 @ xs2" "suffix xs1 m" "prefix xs2 t"
    by blast
  then show ?thesis
  proof cases
    case 1
    then have "set p \<subseteq> set m" by (rule set_mono_sublist)
    then have "set p \<inter> set m = set p" by (rule Int_absorb2)
    with assms(2) have "set p = {}" by simp
    then show ?thesis by simp
  next
    case 2
    then show ?thesis .
  next
    case 3
    from 3(2) have "set xs1 \<subseteq> set m" by (rule set_mono_suffix)
    then have "set xs1 \<inter> set m = set xs1" by (rule Int_absorb2)
    moreover from 3(1) assms(2) have "set xs1 \<inter> set m = {}" by auto
    ultimately have "xs1 = []" by simp
    with 3 show ?thesis by simp
  qed
qed

lemma sublist_append_right: "sublist p t \<Longrightarrow> sublist p (u @ t)"
proof -
  assume "sublist p t"
  then obtain a b where "t = a @ p @ b" unfolding sublist_def by blast
  then have "u @ t = (u @ a) @ p @ b" by simp
  then show ?thesis unfolding sublist_def by blast
qed

lemma sublist_append_left: "sublist p t \<Longrightarrow> sublist p (t @ u)"
proof -
  assume "sublist p t"
  then obtain a b where "t = a @ p @ b" unfolding sublist_def by blast
  then have "t @ u = a @ p @ (b @ u)" by simp
  then show ?thesis unfolding sublist_def by blast
qed

lemma sublist_straddle:
  "suffix xs1 u \<Longrightarrow> prefix xs2 t \<Longrightarrow> sublist (xs1 @ xs2) (u @ t)"
proof -
  assume "suffix xs1 u" "prefix xs2 t"
  then obtain a b where "u = a @ xs1" "t = xs2 @ b"
    unfolding suffix_def prefix_def by blast
  then have "u @ t = a @ (xs1 @ xs2) @ b" by simp
  then show ?thesis unfolding sublist_def by blast
qed

lemma replace_sublist_back:
  "old \<noteq> [] \<Longrightarrow> new = m @ old \<Longrightarrow> m \<noteq> [] \<Longrightarrow> set p \<inter> set m = {}
     \<Longrightarrow> sublist p (replace old new s) \<Longrightarrow> sublist p s"
proof (induction old new s rule: replace.induct)
  case (1 old new)
  then show ?case by simp
next
  case (2 old new c cs)
  note ne = \<open>old \<noteq> []\<close> and new = \<open>new = m @ old\<close> and mne = \<open>m \<noteq> []\<close>
    and dis = \<open>set p \<inter> set m = {}\<close>
  show ?case
  proof (cases "prefix old (c # cs)")
    case True
    define rest where "rest = drop (length old) (c # cs)"
    from True have s: "c # cs = old @ rest"
      unfolding rest_def prefix_def by auto
    have "replace old new (c # cs) = new @ replace old new rest"
      using ne True by (simp add: rest_def)
    with "2.prems"(5) new have "sublist p (m @ (old @ replace old new rest))" by simp
    then have "sublist p (old @ replace old new rest)"
      using dis by (rule sublist_append_disjoint)
    then consider "sublist p old" | "sublist p (replace old new rest)"
      | xs1 xs2 where "p = xs1 @ xs2" "suffix xs1 old" "prefix xs2 (replace old new rest)"
      unfolding sublist_append by blast
    then have "sublist p (old @ rest)"
    proof cases
      case 1
      then show ?thesis by (rule sublist_append_left)
    next
      case 2
      have "sublist p rest"
        unfolding rest_def
        by (rule "2.IH"(2)[OF ne True ne new mne dis]) (use 2 in \<open>simp add: rest_def\<close>)
      then show ?thesis by (rule sublist_append_right)
    next
      case 3
      from 3(1) dis have "set xs2 \<inter> set m = {}" by auto
      with 3(3) ne mne new have "prefix xs2 rest"
        using replace_prefix_back[of old m xs2 rest] by simp
      with 3(2) have "sublist (xs1 @ xs2) (old @ rest)" by (rule sublist_straddle)
      with 3(1) show ?thesis by simp
    qed
    with s show ?thesis by simp
  next
    case False
    have eq: "replace old new (c # cs) = c # replace old new cs"
      using ne False by simp
    with "2.prems"(5) have "sublist p (c # replace old new cs)" by simp
    then consider "prefix p (c # replace old new cs)" | "sublist p (replace old new cs)"
      unfolding sublist_Cons_right by blast
    then show ?thesis
    proof cases
      case 1
      with eq new have "prefix p (replace old (m @ old) (c # cs))" by simp
      with ne mne dis have "prefix p (c # cs)" by (rule replace_prefix_back)
      then show ?thesis by (rule prefix_imp_sublist)
    next
      case 2
      have "sublist p cs"
        by (rule "2.IH"(3)[OF ne False ne new mne dis]) (rule 2)
      then show ?thesis unfolding sublist_Cons_right by simp
    qed
  qed
qed

lemma marker_prefix_nonempty: "marker_prefix \<noteq> []"
  by (simp add: marker_prefix_def)

lemma sanitize_loop_back:
  "list_all (\<lambda>q. q \<noteq> []) ps \<Longrightarrow> set p \<inter> set marker_prefix = {}
     \<Longrightarrow> sublist p (sanitize_loop ps s) \<Longrightarrow> sublist p s"
proof (induction ps arbitrary: s)
  case Nil
  then show ?case by simp
next
  case (Cons q qs)
  from Cons.prems(1) have q: "q \<noteq> []" and qs: "list_all (\<lambda>q. q \<noteq> []) qs" by simp_all
  from Cons.prems(3) have "sublist p (sanitize_loop qs (replace q (marker_prefix @ q) s))"
    by (simp add: marker_def)
  with Cons.IH[OF qs Cons.prems(2)] have "sublist p (replace q (marker_prefix @ q) s)" .
  with q marker_prefix_nonempty Cons.prems(2) show ?case
    using replace_sublist_back[of q "marker_prefix @ q" marker_prefix p s] by simp
qed


lemma pats_disjoint:
  "list_all (\<lambda>p. set p \<inter> set marker_prefix = {}) dangerous_patterns"
  unfolding dangerous_patterns_def marker_prefix_def by code_simp

section \<open>The validation pipeline\<close>

lemma all_independent_sym:
  "all_independent ps \<Longrightarrow> p \<in> set ps \<Longrightarrow> q \<in> set ps \<Longrightarrow> p \<noteq> q \<Longrightarrow> independent p q"
proof (induction ps)
  case Nil
  then show ?case by simp
next
  case (Cons r rs)
  then show ?case
    by (auto simp: list_all_iff intro: independent_sym)
qed

lemma sanitize_code_iff:
  assumes "p \<in> set dangerous_patterns"
  shows "sublist p (sanitize_code raw) \<longleftrightarrow> sublist p raw"
proof
  assume "sublist p (sanitize_code raw)"
  moreover have "list_all (\<lambda>q. q \<noteq> []) dangerous_patterns"
    using indep_pats by (auto simp: list_all_iff all_independent_nonempty)
  moreover have "set p \<inter> set marker_prefix = {}"
    using pats_disjoint assms by (simp add: list_all_iff)
  ultimately show "sublist p raw"
    unfolding sanitize_code_def by (rule sanitize_loop_back[rotated 2])
next
  assume "sublist p raw"
  with indep_pats assms show "sublist p (sanitize_code raw)"
    unfolding sanitize_code_def by (rule sanitize_loop_contains)
qed

lemma calculate_security_score_count:
  "calculate_security_score s =
     max 0 (100 - 20 * real (length (filter (\<lambda>p. sublist p s) dangerous_patterns)))"
  by (simp add: calculate_security_score_def score_loop_count contains_sublist)

lemma sanitize_code_same_count:
  "filter (\<lambda>p. sublist p (sanitize_code raw)) dangerous_patterns
     = filter (\<lambda>p. sublist p raw) dangerous_patterns"
  by (rule filter_cong) (simp_all add: sanitize_code_iff)

lemma perform_security_checks_Inr:
  assumes "perform_security_checks py_compile now raw = Inr (ctx, out)"
  shows "out = sanitize_code raw"
    and "ctx = update_security_level
           \<lparr> sanitized = True, validated = (py_compile (sanitize_code raw) = Compiled),
             security_score = calculate_security_score (sanitize_code raw),
             vulnerabilities = [], last_checked = now, security_level = LOW \<rparr>"
    and "py_compile (sanitize_code raw) = Compiled \<or> py_compile (sanitize_code raw) = Raised SyntaxError"
  using assms
  by (auto simp: perform_security_checks_def validate_syntax_def SecurityContext_init_def Let_def
           split: compile_result.splits py_error.splits)

lemma update_security_level_fields:
  "sanitized (update_security_level c) = sanitized c"
  "validated (update_security_level c) = validated c"
  "security_score (update_security_level c) = security_score c"
  "vulnerabilities (update_security_level c) = vulnerabilities c"
  "last_checked (update_security_level c) = last_checked c"
  by (simp_all add: update_security_level_def)

text \<open>
  C4: the classify step gives HIGH exactly for a score of at least 90 with no
  vulnerability, MEDIUM exactly for a score of at least 70 that is not HIGH (a score in
  [70, 90), or at least 90 with a vulnerability), and LOW exactly for a score below 70.
\<close>

theorem update_security_level_classifies:
  "(security_level (update_security_level ctx) = HIGH)
      = (security_score ctx \<ge> 90 \<and> vulnerabilities ctx = [])
   \<and> (security_level (update_security_level ctx) = MEDIUM)
      = (security_score ctx \<ge> 70 \<and> \<not> (security_score ctx \<ge> 90 \<and> vulnerabilities ctx = []))
   \<and> (security_level (update_security_level ctx) = MEDIUM)
      = (70 \<le> security_score ctx \<and> security_score ctx < 90
         \<or> security_score ctx \<ge> 90 \<and> vulnerabilities ctx \<noteq> [])
   \<and> (security_level (update_security_level ctx) = LOW) = (security_score ctx < 70)"
  by (auto simp: update_security_level_def)

theorem update_security_level_classifies_witness:
  "security_level (update_security_level (SecurityContext_init 0\<lparr>security_score := 0\<rparr>)) = LOW
   \<and> security_level (update_security_level (SecurityContext_init 0\<lparr>security_score := 69\<rparr>)) = LOW
   \<and> security_level (update_security_level (SecurityContext_init 0\<lparr>security_score := 70\<rparr>)) = MEDIUM
   \<and> security_level (update_security_level (SecurityContext_init 0\<lparr>security_score := 89\<rparr>)) = MEDIUM
   \<and> security_level (update_security_level (SecurityContext_init 0\<lparr>security_score := 90\<rparr>)) = HIGH
   \<and> security_level (update_security_level (SecurityContext_init 0\<lparr>security_score := 100\<rparr>)) = HIGH
   \<and> security_level (update_security_level
        (SecurityContext_init 0\<lparr>security_score := 0, vulnerabilities := [''eval('']\<rparr>)) = LOW
   \<and> security_level (update_security_level
        (SecurityContext_init 0\<lparr>security_score := 69, vulnerabilities := [''eval('']\<rparr>)) = LOW
   \<and> security_level (update_security_level
        (SecurityContext_init 0\<lparr>security_score := 70, vulnerabilities := [''eval('']\<rparr>)) = MEDIUM
   \<and> security_level (update_security_level
        (SecurityContext_init 0\<lparr>security_score := 89, vulnerabilities := [''eval('']\<rparr>)) = MEDIUM
   \<and> security_level (update_security_level
        (SecurityContext_init 0\<lparr>security_score := 90, vulnerabilities := [''eval('']\<rparr>)) = MEDIUM
   \<and> security_level (update_security_level
        (SecurityContext_init 0\<lparr>security_score := 100, vulnerabilities := [''eval('']\<rparr>)) = MEDIUM"
  using update_security_level_classifies [of "SecurityContext_init 0\<lparr>security_score := 0\<rparr>"]
    update_security_level_classifies [of "SecurityContext_init 0\<lparr>security_score := 69\<rparr>"]
    update_security_level_classifies [of "SecurityContext_init 0\<lparr>security_score := 70\<rparr>"]
    update_security_level_classifies [of "SecurityContext_init 0\<lparr>security_score := 89\<rparr>"]
    update_security_level_classifies [of "SecurityContext_init 0\<lparr>security_score := 90\<rparr>"]
    update_security_level_classifies [of "SecurityContext_init 0\<lparr>security_score := 100\<rparr>"]
    update_security_level_classifies
      [of "SecurityContext_init 0\<lparr>security_score := 0, vulnerabilities := [''eval('']\<rparr>"]
    update_security_level_classifies
      [of "SecurityContext_init 0\<lparr>security_score := 69, vulnerabilities := [''eval('']\<rparr>"]
    update_security_level_classifies
      [of "SecurityContext_init 0\<lparr>security_score := 70, vulnerabilities := [''eval('']\<rparr>"]
    update_security_level_classifies
      [of "SecurityContext_init 0\<lparr>security_score := 89, vulnerabilities := [''eval('']\<rparr>"]
    update_security_level_classifies
      [of "SecurityContext_init 0\<lparr>security_score := 90, vulnerabilities := [''eval('']\<rparr>"]
    update_security_level_classifies
      [of "SecurityContext_init 0\<lparr>security_score := 100, vulnerabilities := [''eval('']\<rparr>"]
  by (simp add: SecurityContext_init_def)

text \<open>
  C5: the score of a text is 100 minus 20 for every denylisted pattern that occurs in it
  as a substring, and never less than 0.
\<close>

theorem calculate_security_score_formula:
  "calculate_security_score s =
     max 0 (100 - 20 * real (length (filter (\<lambda>p. sublist p s) dangerous_patterns)))
   \<and> 0 \<le> calculate_security_score s \<and> calculate_security_score s \<le> 100"
proof -
  have "calculate_security_score s
      = max 0 (100 - 20 * real (length (filter (\<lambda>p. sublist p s) dangerous_patterns)))"
    by (rule calculate_security_score_count)
  then show ?thesis by (simp add: max_def)
qed

end
